theory Spec2Isabelle
  imports Main "HOL-Library.Word" "HOL-Library.AList" "HOL-Library.Char_ord"
    "HOL-Library.List_Lexorder"
begin

section \<open>The tsm1 cache: data model\<close>

text \<open>
  The development embeds \<^verbatim>\<open>tsdb/engine/tsm1/cache.go\<close>. The file is a work in
  progress that does not type-check as it stands; the embedding follows what each line
  visibly does and reads the ill-typed places as follows, each from the nearest
  well-typed sibling in the same file:
  \<^item> line 36 updates \<^verbatim>\<open>e.size\<close>, a field the struct declaration (lines 14-17) omits:
    the entry record carries it (\<open>size_e\<close>);
  \<^item> line 132, \<^verbatim>\<open>append(c.flushingCachesSize, snap)\<close>, is read as
    \<^verbatim>\<open>append(c.flushingCaches, snapshot)\<close> (the comment of lines 119-120);
  \<^item> line 198, \<^verbatim>\<open>e.values[0:len(values)]\<close>, is read as line 215 writes it,
    \<^verbatim>\<open>e.values[0:len(e.values)]\<close>;
  \<^item> lines 204-216 assign a closure where line 199 calls it: the closure is called;
  \<^item> line 116 returns only \<^verbatim>\<open>nil\<close>: \<open>WriteMulti\<close> returns the new size with it, as
    its comment (line 95) and \<open>Write\<close> do.

  Sizes are \<^verbatim>\<open>uint64\<close>, modelled as 64-bit words: \<open>+\<close> and \<open>-\<close> wrap around as
  Go's do. \<^verbatim>\<open>Values.Size()\<close> returns an \<^verbatim>\<open>int\<close> that the code converts with
  \<^verbatim>\<open>uint64(...)\<close>; on a 64-bit platform the conversion keeps the bit pattern, so
  the sum is taken in the word type directly. Timestamps are \<^verbatim>\<open>int64\<close>; the code only
  compares them, so they are modelled as integers, with \<^verbatim>\<open>math.MinInt64\<close> written out.
\<close>

type_synonym uint64 = "64 word"

text \<open>
  \<^verbatim>\<open>Value\<close> is an interface declared outside this file; the cache uses its timestamp
  (\<^verbatim>\<open>UnixNano()\<close>) and its byte size (\<^verbatim>\<open>Size()\<close>). The payload stands for the rest.
\<close>

record Value =
  UnixNano :: int
  payload :: nat
  Size_v :: uint64

definition MinInt64 :: int where
  "MinInt64 = - (2 ^ 63)"

text \<open>
  Modelled from the spec: \<^verbatim>\<open>Values.Size\<close> is declared outside \<^verbatim>\<open>cache.go\<close>. The
  spec (section 6) asks of the sample sequence type "a byte-size estimate for
  accounting"; it is taken as the sum of the samples' sizes. No general property below
  depends on how the estimate is computed.
\<close>

definition Values_Size :: "Value list \<Rightarrow> uint64" where
  "Values_Size vs = sum_list (map Size_v vs)"

text \<open>
  Modelled from the spec: \<^verbatim>\<open>Values.Deduplicate\<close> is declared outside \<^verbatim>\<open>cache.go\<close>.
  The spec (sections 4.1 and 6): "deduplicates by timestamp (last write for a given
  timestamp wins), sorts ascending". \<open>dedup_last\<close> keeps, of the samples with one
  timestamp, the one written last; \<open>Deduplicate\<close> then sorts by timestamp.
\<close>

fun dedup_last :: "Value list \<Rightarrow> Value list" where
  "dedup_last [] = []"
| "dedup_last (v # vs) =
     (if UnixNano v \<in> set (map UnixNano vs) then dedup_last vs else v # dedup_last vs)"

definition Deduplicate :: "Value list \<Rightarrow> Value list" where
  "Deduplicate vs = sort_key UnixNano (dedup_last vs)"

subsection \<open>entry\<close>

record entry =
  values_e :: "Value list"
  needSort :: bool
  size_e :: uint64

definition newEntry :: entry where
  "newEntry = \<lparr>values_e = [], needSort = False, size_e = 0\<rparr>"

text \<open>
  The loop of lines 44-50. \<^verbatim>\<open>min\<close> is a parameter (\<open>min_t\<close>) that every iteration passes on
  unchanged, as the source never assigns it inside the loop. The result is the value of
  \<^verbatim>\<open>e.needSort\<close> after the loop.
\<close>

fun add_scan :: "int \<Rightarrow> Value list \<Rightarrow> bool \<Rightarrow> bool" where
  "add_scan min_t [] ns = ns"
| "add_scan min_t (v # vs) ns =
     (if min_t \<ge> UnixNano v then True else add_scan min_t vs ns)"

text \<open>
  \<^verbatim>\<open>entry.add\<close>, lines 25-51. \<open>None\<close> is the index-out-of-range panic of
  \<^verbatim>\<open>values[0]\<close> (line 31) on an empty batch; it happens before any assignment.
\<close>

definition add :: "Value list \<Rightarrow> entry \<Rightarrow> entry option" where
  "add vs e =
     (if values_e e \<noteq> [] \<and> vs = [] then None
      else
        let e1 = (if values_e e \<noteq> [] \<and> UnixNano (hd (values_e e)) \<ge> UnixNano (hd vs)
                  then e\<lparr>needSort := True\<rparr> else e);
            e2 = e1\<lparr>values_e := values_e e1 @ vs, size_e := size_e e1 + Values_Size vs\<rparr>
        in if length vs = 1 then Some e2
           else Some (e2\<lparr>needSort := add_scan MinInt64 vs (needSort e2)\<rparr>))"

subsection \<open>Cache\<close>

text \<open>
  Caches live in a heap and are named by their address, since \<^verbatim>\<open>ClearSnapshot\<close>
  compares snapshots by pointer. The store of a cache is a Go map with unique keys, kept
  as an association list; \<^verbatim>\<open>Snapshot\<close> hands the old map to the snapshot and gives
  the live cache a fresh one, so no map or entry is ever reachable from two caches and
  the store can be a value inside the record.
\<close>

type_synonym ref = nat

record Cache =
  store :: "(string \<times> entry) list"
  size_c :: uint64
  maxSize :: uint64
  flushingCaches :: "ref list"
  flushingCachesSize :: uint64

type_synonym heap = "Cache list"

datatype error = ErrCacheMemoryExceeded

datatype 'a outcome = Return 'a | Panic

definition NewCache :: "uint64 \<Rightarrow> Cache" where
  "NewCache m =
     \<lparr>store = [], size_c = 0, maxSize = m, flushingCaches = [], flushingCachesSize = 0\<rparr>"

text \<open>
  \<^verbatim>\<open>Cache.write\<close> (\<open>write_c\<close>), lines 224-231: the entry is created and stored first, then
  \<^verbatim>\<open>add\<close> runs on it. The flag is False when \<^verbatim>\<open>add\<close> panicked.
\<close>

definition write_c :: "string \<Rightarrow> Value list \<Rightarrow> Cache \<Rightarrow> bool \<times> Cache" where
  "write_c key vs c =
     (let (e, c1) = (case map_of (store c) key of
                       Some e \<Rightarrow> (e, c)
                     | None \<Rightarrow> (newEntry, c\<lparr>store := AList.update key newEntry (store c)\<rparr>))
      in case add vs e of
           None \<Rightarrow> (False, c1)
         | Some e' \<Rightarrow> (True, c1\<lparr>store := AList.update key e' (store c1)\<rparr>))"

text \<open>\<^verbatim>\<open>Cache.Write\<close>, lines 78-92.\<close>

definition Write ::
  "string \<Rightarrow> Value list \<Rightarrow> Cache \<Rightarrow> (uint64 \<times> error option) outcome \<times> Cache" where
  "Write key vs c =
     (let newSize = size_c c + Values_Size vs
      in if newSize + flushingCachesSize c > maxSize c
         then (Return (newSize, Some ErrCacheMemoryExceeded), c)
         else (case write_c key vs c of
                 (False, c1) \<Rightarrow> (Panic, c1)
               | (True, c1) \<Rightarrow> (Return (newSize, None), c1\<lparr>size_c := newSize\<rparr>)))"

text \<open>
  \<^verbatim>\<open>Cache.WriteMulti\<close>, lines 96-117. The batch is a Go map: an association list,
  walked in list order (Go's order is unspecified). \<open>WriteMulti_size\<close> is the loop of
  lines 100-103, \<open>WriteMulti_loop\<close> the loop of lines 111-113, which a panic leaves
  half-way.
\<close>

type_synonym batch = "(string \<times> Value list) list"

fun WriteMulti_size :: "batch \<Rightarrow> uint64 \<Rightarrow> uint64" where
  "WriteMulti_size [] totalSz = totalSz"
| "WriteMulti_size ((k, v) # rest) totalSz = WriteMulti_size rest (totalSz + Values_Size v)"

fun WriteMulti_loop :: "batch \<Rightarrow> Cache \<Rightarrow> bool \<times> Cache" where
  "WriteMulti_loop [] c = (True, c)"
| "WriteMulti_loop ((k, v) # rest) c =
     (case write_c k v c of
        (False, c1) \<Rightarrow> (False, c1)
      | (True, c1) \<Rightarrow> WriteMulti_loop rest c1)"

definition WriteMulti ::
  "batch \<Rightarrow> Cache \<Rightarrow> (uint64 \<times> error option) outcome \<times> Cache" where
  "WriteMulti vals c =
     (let totalSz = WriteMulti_size vals 0;
          newSize = size_c c + totalSz
      in if newSize + flushingCachesSize c > maxSize c
         then (Return (newSize, Some ErrCacheMemoryExceeded), c)
         else (case WriteMulti_loop vals c of
                 (False, c1) \<Rightarrow> (Panic, c1)
               | (True, c1) \<Rightarrow> (Return (newSize, None), c1\<lparr>size_c := newSize\<rparr>)))"

text \<open>\<^verbatim>\<open>Size\<close>, \<^verbatim>\<open>MaxSize\<close> and \<^verbatim>\<open>Keys\<close>, lines 163-182.\<close>

definition Size :: "Cache \<Rightarrow> uint64" where
  "Size c = size_c c + flushingCachesSize c"

definition MaxSize :: "Cache \<Rightarrow> uint64" where
  "MaxSize c = maxSize c"

definition Keys :: "Cache \<Rightarrow> string list" where
  "Keys c = sort (map fst (store c))"

text \<open>
  \<^verbatim>\<open>Cache.Values\<close>, lines 185-220, with no concurrent writer between the two
  critical sections: the second lookup finds the entry the first one found. A nil slice
  is the empty list.
\<close>

definition Values :: "string \<Rightarrow> Cache \<Rightarrow> Value list \<times> Cache" where
  "Values key c =
     (case map_of (store c) key of
        None \<Rightarrow> ([], c)
      | Some e \<Rightarrow>
          if needSort e
          then (let e' = e\<lparr>values_e := Deduplicate (values_e e), needSort := False\<rparr>
                in (values_e e', c\<lparr>store := AList.update key e' (store c)\<rparr>))
          else (values_e e, c))"

subsection \<open>Snapshots: operations on the heap\<close>

text \<open>
  \<^verbatim>\<open>Cache.Snapshot\<close>, lines 121-136, on the cache at address \<open>c\<close>. The new cache is
  allocated at the end of the heap; its address is returned with the new heap.
\<close>

definition Snapshot :: "ref \<Rightarrow> heap \<Rightarrow> ref \<times> heap" where
  "Snapshot c h =
     (let C = h ! c;
          snapshot = (NewCache (maxSize C))\<lparr>store := store C, size_c := size_c C\<rparr>;
          s = length h;
          h1 = h @ [snapshot];
          C1 = C\<lparr>store := [], size_c := 0\<rparr>;
          C2 = C1\<lparr>flushingCaches := flushingCaches C1 @ [s]\<rparr>;
          C3 = C2\<lparr>flushingCachesSize := flushingCachesSize C2 + size_c snapshot\<rparr>
      in (s, h1[c := C3]))"

text \<open>
  The loop of lines 144-152: the pair is \<^verbatim>\<open>(caches, cleared)\<close>.
\<close>

fun ClearSnapshot_loop :: "ref \<Rightarrow> ref list \<Rightarrow> ref list \<times> bool \<Rightarrow> ref list \<times> bool" where
  "ClearSnapshot_loop snapshot [] acc = acc"
| "ClearSnapshot_loop snapshot (cache # rest) (caches, cleared) =
     (if cache \<noteq> snapshot
      then ClearSnapshot_loop snapshot rest (caches @ [cache], cleared)
      else ClearSnapshot_loop snapshot rest (caches, True))"

text \<open>\<^verbatim>\<open>Cache.ClearSnapshot\<close>, lines 140-160, on the cache at address \<open>c\<close>.\<close>

definition ClearSnapshot :: "ref \<Rightarrow> ref \<Rightarrow> heap \<Rightarrow> heap" where
  "ClearSnapshot c snapshot h =
     (let (caches, cleared) = ClearSnapshot_loop snapshot (flushingCaches (h ! c)) ([], False);
          h1 = h[c := (h ! c)\<lparr>flushingCaches := caches\<rparr>]
      in if cleared
         then h1[c := (h1 ! c)\<lparr>size_c := size_c (h1 ! c) - size_c (h1 ! snapshot)\<rparr>]
         else h1)"

subsection \<open>Sequences of calls\<close>

text \<open>
  The exported operations that act on one cache, as data, and the state each leaves
  behind. \<^verbatim>\<open>Keys\<close>, \<^verbatim>\<open>Size\<close> and \<^verbatim>\<open>MaxSize\<close> only read. A call that panics
  leaves the state it had reached (the deferred unlock runs and the caller may recover).
\<close>

datatype ccall =
    CallWrite string "Value list"
  | CallWriteMulti batch
  | CallValues string
  | CallKeys
  | CallSize
  | CallMaxSize

fun ccall_exec :: "ccall \<Rightarrow> Cache \<Rightarrow> Cache" where
  "ccall_exec (CallWrite key vs) c = snd (Write key vs c)"
| "ccall_exec (CallWriteMulti vals) c = snd (WriteMulti vals c)"
| "ccall_exec (CallValues key) c = snd (Values key c)"
| "ccall_exec CallKeys c = c"
| "ccall_exec CallSize c = c"
| "ccall_exec CallMaxSize c = c"

definition ccalls_run :: "ccall list \<Rightarrow> Cache \<Rightarrow> Cache" where
  "ccalls_run calls c = fold ccall_exec calls c"

text \<open>
  All exported operations, each with the address of its receiver. A call on an address
  that holds no cache (a nil receiver) panics at once and changes nothing.
\<close>

datatype call =
    OnCache ccall
  | CallSnapshot
  | CallClearSnapshot ref

fun exec :: "ref \<times> call \<Rightarrow> heap \<Rightarrow> heap" where
  "exec (c, OnCache x) h = (if c < length h then h[c := ccall_exec x (h ! c)] else h)"
| "exec (c, CallSnapshot) h = (if c < length h then snd (Snapshot c h) else h)"
| "exec (c, CallClearSnapshot s) h = (if c < length h then ClearSnapshot c s h else h)"

definition run :: "(ref \<times> call) list \<Rightarrow> heap \<Rightarrow> heap" where
  "run calls h = fold exec calls h"

subsection \<open>Observations and example inputs\<close>

text \<open>The samples held under a key of the live store; none when the key is absent.\<close>

definition stored :: "string \<Rightarrow> Cache \<Rightarrow> Value list" where
  "stored key c = (case map_of (store c) key of None \<Rightarrow> [] | Some e \<Rightarrow> values_e e)"

text \<open>The bytes of the samples held in the live store of a cache.\<close>

definition liveBytes :: "Cache \<Rightarrow> uint64" where
  "liveBytes c = sum_list (map (\<lambda>kv. Values_Size (values_e (snd kv))) (store c))"

text \<open>The key is among those a call appends to.\<close>

fun adds_to :: "string \<Rightarrow> ccall \<Rightarrow> bool" where
  "adds_to key (CallWrite k vs) = (k = key)"
| "adds_to key (CallWriteMulti vals) = (key \<in> set (map fst vals))"
| "adds_to key _ = False"

text \<open>A sample of 20 bytes with the given timestamp and payload.\<close>

definition sample :: "int \<Rightarrow> nat \<Rightarrow> Value" where
  "sample t p = \<lparr>UnixNano = t, payload = p, Size_v = 20\<rparr>"

text \<open>
  A cache of capacity 100 after a write of 60 bytes under \<open>cpu\<close> and a snapshot: the
  live cache is at address 0, the snapshot at address 1.
\<close>

definition heap_one_snapshot :: heap where
  "heap_one_snapshot =
     run [(0, OnCache (CallWrite ''cpu'' [sample 1 0, sample 2 0, sample 3 0])),
          (0, CallSnapshot)] [NewCache 100]"

text \<open>
  The same cache after the release of that snapshot and a further write of 20 bytes
  under \<open>mem\<close>.
\<close>

definition heap_released_then_write :: heap where
  "heap_released_then_write =
     run [(0, CallClearSnapshot 1),
          (0, OnCache (CallWrite ''mem'' [sample 4 0]))] heap_one_snapshot"

text \<open>A cache of capacity 100 that holds one sample under \<open>b\<close>.\<close>

definition cache_with_b :: Cache where
  "cache_with_b = snd (Write ''b'' [sample 1 0] (NewCache 100))"

text \<open>A batch whose second key has no samples.\<close>

definition batch_with_empty :: batch where
  "batch_with_empty = [(''a'', [sample 2 0]), (''b'', []), (''c'', [sample 3 0])]"

text \<open>
  A cache of capacity 100 after a write with timestamps 5, 3, 8 under \<open>k\<close> and a
  second write with timestamp 1.
\<close>

definition cache_unsorted :: Cache where
  "cache_unsorted =
     snd (Write ''k'' [sample 1 3]
       (snd (Write ''k'' [sample 5 0, sample 3 1, sample 8 2] (NewCache 100))))"

section \<open>What the operations change\<close>

subsection \<open>entry.add and the counters\<close>

lemma add_None_iff: "add vs e = None \<longleftrightarrow> values_e e \<noteq> [] \<and> vs = []"
  by (simp add: add_def Let_def)

lemma add_values: "add vs e = Some e' \<Longrightarrow> values_e e' = values_e e @ vs"
  by (auto simp: add_def Let_def split: if_splits)

lemma write_c_frame:
  "size_c (snd (write_c key vs c)) = size_c c"
  "maxSize (snd (write_c key vs c)) = maxSize c"
  "flushingCaches (snd (write_c key vs c)) = flushingCaches c"
  "flushingCachesSize (snd (write_c key vs c)) = flushingCachesSize c"
  by (simp_all add: write_c_def Let_def split: option.splits)

lemma WriteMulti_loop_frame:
  "size_c (snd (WriteMulti_loop vals c)) = size_c c \<and>
   maxSize (snd (WriteMulti_loop vals c)) = maxSize c \<and>
   flushingCaches (snd (WriteMulti_loop vals c)) = flushingCaches c \<and>
   flushingCachesSize (snd (WriteMulti_loop vals c)) = flushingCachesSize c"
proof (induction vals arbitrary: c)
  case Nil
  then show ?case by simp
next
  case (Cons kv rest)
  obtain k v where kv: "kv = (k, v)" by (cases kv)
  obtain ok c1 where w: "write_c k v c = (ok, c1)" by (cases "write_c k v c")
  have c1: "size_c c1 = size_c c" "maxSize c1 = maxSize c"
    "flushingCaches c1 = flushingCaches c" "flushingCachesSize c1 = flushingCachesSize c"
    using write_c_frame [of k v c] w by simp_all
  show ?case
  proof (cases ok)
    case True
    then show ?thesis using Cons.IH [of c1] w kv c1 by simp
  next
    case False
    then show ?thesis using w kv c1 by simp
  qed
qed

lemma Write_cases:
  "Write key vs c = (Return (size_c c + Values_Size vs, Some ErrCacheMemoryExceeded), c) \<and>
     maxSize c < size_c c + Values_Size vs + flushingCachesSize c
   \<or> Write key vs c = (Panic, snd (write_c key vs c)) \<and> \<not> fst (write_c key vs c) \<and>
     \<not> maxSize c < size_c c + Values_Size vs + flushingCachesSize c
   \<or> Write key vs c =
       (Return (size_c c + Values_Size vs, None),
        (snd (write_c key vs c))\<lparr>size_c := size_c c + Values_Size vs\<rparr>) \<and>
     fst (write_c key vs c) \<and>
     \<not> maxSize c < size_c c + Values_Size vs + flushingCachesSize c"
  by (cases "write_c key vs c") (auto simp: Write_def Let_def split: bool.splits)

lemma WriteMulti_cases:
  "WriteMulti vals c =
       (Return (size_c c + WriteMulti_size vals 0, Some ErrCacheMemoryExceeded), c) \<and>
     maxSize c < size_c c + WriteMulti_size vals 0 + flushingCachesSize c
   \<or> WriteMulti vals c = (Panic, snd (WriteMulti_loop vals c)) \<and>
     \<not> fst (WriteMulti_loop vals c) \<and>
     \<not> maxSize c < size_c c + WriteMulti_size vals 0 + flushingCachesSize c
   \<or> WriteMulti vals c =
       (Return (size_c c + WriteMulti_size vals 0, None),
        (snd (WriteMulti_loop vals c))\<lparr>size_c := size_c c + WriteMulti_size vals 0\<rparr>) \<and>
     fst (WriteMulti_loop vals c) \<and>
     \<not> maxSize c < size_c c + WriteMulti_size vals 0 + flushingCachesSize c"
  by (cases "WriteMulti_loop vals c") (auto simp: WriteMulti_def Let_def split: bool.splits)

lemma Values_frame:
  "size_c (snd (Values key c)) = size_c c"
  "maxSize (snd (Values key c)) = maxSize c"
  "flushingCaches (snd (Values key c)) = flushingCaches c"
  "flushingCachesSize (snd (Values key c)) = flushingCachesSize c"
  by (simp_all add: Values_def Let_def split: option.splits)

lemma ccall_exec_frame:
  "maxSize (ccall_exec x c) = maxSize c"
  "flushingCaches (ccall_exec x c) = flushingCaches c"
  "flushingCachesSize (ccall_exec x c) = flushingCachesSize c"
proof -
  show "maxSize (ccall_exec x c) = maxSize c"
  proof (cases x)
    case (CallWrite key vs)
    then show ?thesis using Write_cases [of key vs c] by (auto simp: write_c_frame)
  next
    case (CallWriteMulti vals)
    then show ?thesis using WriteMulti_cases [of vals c] by (auto simp: WriteMulti_loop_frame)
  qed (simp_all add: Values_frame)
  show "flushingCaches (ccall_exec x c) = flushingCaches c"
  proof (cases x)
    case (CallWrite key vs)
    then show ?thesis using Write_cases [of key vs c] by (auto simp: write_c_frame)
  next
    case (CallWriteMulti vals)
    then show ?thesis using WriteMulti_cases [of vals c] by (auto simp: WriteMulti_loop_frame)
  qed (simp_all add: Values_frame)
  show "flushingCachesSize (ccall_exec x c) = flushingCachesSize c"
  proof (cases x)
    case (CallWrite key vs)
    then show ?thesis using Write_cases [of key vs c] by (auto simp: write_c_frame)
  next
    case (CallWriteMulti vals)
    then show ?thesis using WriteMulti_cases [of vals c] by (auto simp: WriteMulti_loop_frame)
  qed (simp_all add: Values_frame)
qed

lemma ccall_exec_Size:
  assumes "Size c \<le> maxSize c"
  shows "Size (ccall_exec x c) \<le> maxSize (ccall_exec x c)"
proof (cases x)
  case (CallWrite key vs)
  then show ?thesis using Write_cases [of key vs c] assms
    by (auto simp: write_c_frame Size_def not_less)
next
  case (CallWriteMulti vals)
  then show ?thesis using WriteMulti_cases [of vals c] assms
    by (auto simp: WriteMulti_loop_frame Size_def not_less)
next
  case (CallValues key)
  then show ?thesis using assms by (simp add: Size_def Values_frame)
qed (use assms in simp_all)

lemma ccalls_run_frame:
  "maxSize (ccalls_run calls c) = maxSize c \<and>
   flushingCaches (ccalls_run calls c) = flushingCaches c \<and>
   flushingCachesSize (ccalls_run calls c) = flushingCachesSize c"
  unfolding ccalls_run_def
  by (induction calls arbitrary: c) (simp_all add: ccall_exec_frame)

lemma ccalls_run_Size:
  "Size c \<le> maxSize c \<Longrightarrow> Size (ccalls_run calls c) \<le> maxSize (ccalls_run calls c)"
  unfolding ccalls_run_def
  by (induction calls arbitrary: c) (simp_all add: ccall_exec_Size)


section \<open>The capacity bound\<close>

text \<open>
  Claim C2. Run any sequence of calls on a cache made by \<open>NewCache m\<close>, the
  \<^verbatim>\<open>Write\<close> and \<^verbatim>\<open>WriteMulti\<close> calls of the claim and reads between them: afterwards
  the live size plus the snapshot size is at most \<open>m\<close>, as natural numbers, so without
  wrap-around. From any cache whose \<^verbatim>\<open>Size()\<close> is within its capacity the calls keep
  it there. A \<^verbatim>\<open>Write\<close> or \<^verbatim>\<open>WriteMulti\<close> whose new size plus the snapshot size
  exceeds the capacity returns the would-be size with \<open>ErrCacheMemoryExceeded\<close> and
  the cache it was given, unchanged in every field.
\<close>

theorem capacity_invariant:
  "unat (size_c (ccalls_run calls (NewCache m)))
     + unat (flushingCachesSize (ccalls_run calls (NewCache m))) \<le> unat m
   \<and> (Size c \<le> maxSize c \<longrightarrow> Size (ccalls_run calls c) \<le> maxSize (ccalls_run calls c))
   \<and> (maxSize c < size_c c + Values_Size vs + flushingCachesSize c \<longrightarrow>
        Write key vs c =
          (Return (size_c c + Values_Size vs, Some ErrCacheMemoryExceeded), c))
   \<and> (maxSize c < size_c c + WriteMulti_size vals 0 + flushingCachesSize c \<longrightarrow>
        WriteMulti vals c =
          (Return (size_c c + WriteMulti_size vals 0, Some ErrCacheMemoryExceeded), c))"
proof -
  let ?c = "ccalls_run calls (NewCache m)"
  have "Size (NewCache m) \<le> maxSize (NewCache m)"
    by (simp add: Size_def NewCache_def)
  then have "Size ?c \<le> maxSize ?c" by (rule ccalls_run_Size)
  moreover have "maxSize ?c = m" "flushingCachesSize ?c = 0"
    using ccalls_run_frame [of calls "NewCache m"] by (simp_all add: NewCache_def)
  ultimately have "size_c ?c \<le> m" by (simp add: Size_def)
  then have a: "unat (size_c ?c) + unat (flushingCachesSize ?c) \<le> unat m"
    using \<open>flushingCachesSize ?c = 0\<close> by (simp add: word_le_nat_alt)
  have b: "Size c \<le> maxSize c \<longrightarrow> Size (ccalls_run calls c) \<le> maxSize (ccalls_run calls c)"
    by (simp add: ccalls_run_Size)
  have w: "maxSize c < size_c c + Values_Size vs + flushingCachesSize c \<longrightarrow>
        Write key vs c =
          (Return (size_c c + Values_Size vs, Some ErrCacheMemoryExceeded), c)"
    by (simp add: Write_def Let_def)
  have wm: "maxSize c < size_c c + WriteMulti_size vals 0 + flushingCachesSize c \<longrightarrow>
        WriteMulti vals c =
          (Return (size_c c + WriteMulti_size vals 0, Some ErrCacheMemoryExceeded), c)"
    by (simp add: WriteMulti_def Let_def)
  from a b w wm show ?thesis by blast
qed

theorem capacity_invariant_witness:
  "Size cache_with_b \<le> maxSize cache_with_b
   \<and> Size (ccalls_run [CallWrite ''cpu'' [sample 1 0, sample 2 0, sample 3 0]] cache_with_b)
       \<le> maxSize (ccalls_run [CallWrite ''cpu'' [sample 1 0, sample 2 0, sample 3 0]] cache_with_b)
   \<and> maxSize cache_with_b
       < size_c cache_with_b + Values_Size (replicate 5 (sample 1 0))
         + flushingCachesSize cache_with_b
   \<and> Write ''x'' (replicate 5 (sample 1 0)) cache_with_b =
        (Return (120, Some ErrCacheMemoryExceeded), cache_with_b)
   \<and> maxSize cache_with_b
       < size_c cache_with_b + WriteMulti_size [(''x'', replicate 5 (sample 1 0))] 0
         + flushingCachesSize cache_with_b
   \<and> WriteMulti [(''x'', replicate 5 (sample 1 0))] cache_with_b =
        (Return (120, Some ErrCacheMemoryExceeded), cache_with_b)"
proof -
  have c: "size_c cache_with_b = 20" "maxSize cache_with_b = 100"
    "flushingCachesSize cache_with_b = 0"
    by (simp_all add: cache_with_b_def Write_def write_c_def add_def newEntry_def
        NewCache_def Values_Size_def sample_def Let_def)
  have sz: "Values_Size (replicate 5 (sample 1 0)) = 100"
    by (simp add: Values_Size_def sample_def numeral_eq_Suc)
  have h1: "Size cache_with_b \<le> maxSize cache_with_b"
    by (simp add: Size_def c)
  have h2: "maxSize cache_with_b
       < size_c cache_with_b + Values_Size (replicate 5 (sample 1 0))
         + flushingCachesSize cache_with_b"
    by (simp add: c sz)
  have h3: "maxSize cache_with_b
       < size_c cache_with_b + WriteMulti_size [(''x'', replicate 5 (sample 1 0))] 0
         + flushingCachesSize cache_with_b"
    by (simp add: c sz)
  show ?thesis
    using h1 h2 h3
      capacity_invariant [of "[CallWrite ''cpu'' [sample 1 0, sample 2 0, sample 3 0]]" 100
        cache_with_b "replicate 5 (sample 1 0)" "''x''" "[(''x'', replicate 5 (sample 1 0))]"]
    by (simp add: c sz)
qed

section \<open>The configured capacity\<close>

text \<open>
  The loop of \<^verbatim>\<open>ClearSnapshot\<close> keeps the addresses that differ from the snapshot's
  and reports whether it met the snapshot's.
\<close>

lemma ClearSnapshot_loop_eq:
  "ClearSnapshot_loop s xs (caches, cleared) =
     (caches @ filter (\<lambda>r. r \<noteq> s) xs, cleared \<or> s \<in> set xs)"
  by (induction xs arbitrary: caches cleared) auto

lemma ClearSnapshot_eq:
  "ClearSnapshot c s h =
     (let h1 = h[c := (h ! c)\<lparr>flushingCaches := filter (\<lambda>r. r \<noteq> s) (flushingCaches (h ! c))\<rparr>]
      in if s \<in> set (flushingCaches (h ! c))
         then h1[c := (h1 ! c)\<lparr>size_c := size_c (h1 ! c) - size_c (h1 ! s)\<rparr>]
         else h1)"
  by (simp add: ClearSnapshot_def ClearSnapshot_loop_eq Let_def)

lemma Snapshot_length: "length (snd (Snapshot c h)) = Suc (length h)"
  by (simp add: Snapshot_def Let_def)

lemma ClearSnapshot_length: "length (ClearSnapshot c s h) = length h"
  by (simp add: ClearSnapshot_eq Let_def)

lemma Snapshot_maxSize:
  assumes "r < length h"
  shows "maxSize (snd (Snapshot c h) ! r) = maxSize (h ! r)"
proof (cases "r = c")
  case True
  then show ?thesis using assms by (simp add: Snapshot_def Let_def)
next
  case False
  then show ?thesis using assms by (simp add: Snapshot_def Let_def nth_append)
qed

lemma ClearSnapshot_maxSize:
  assumes "r < length h"
  shows "maxSize (ClearSnapshot c s h ! r) = maxSize (h ! r)"
proof (cases "r = c")
  case True
  then show ?thesis using assms by (simp add: ClearSnapshot_eq Let_def)
next
  case False
  then show ?thesis using assms by (simp add: ClearSnapshot_eq Let_def)
qed

lemma exec_length: "length h \<le> length (exec x h)"
proof (cases x)
  case (Pair c y)
  then show ?thesis
    by (cases y) (simp_all add: Snapshot_length ClearSnapshot_length)
qed

lemma exec_maxSize:
  assumes "r < length h"
  shows "maxSize (exec x h ! r) = maxSize (h ! r)"
proof (cases x)
  case (Pair c y)
  show ?thesis
  proof (cases y)
    case (OnCache z)
    then show ?thesis using Pair assms
      by (cases "r = c") (simp_all add: ccall_exec_frame)
  next
    case CallSnapshot
    then show ?thesis using Pair assms by (simp add: Snapshot_maxSize)
  next
    case (CallClearSnapshot s)
    then show ?thesis using Pair assms by (simp add: ClearSnapshot_maxSize)
  qed
qed

lemma run_maxSize:
  "r < length h \<Longrightarrow> r < length (run calls h) \<and> maxSize (run calls h ! r) = maxSize (h ! r)"
  unfolding run_def
proof (induction calls arbitrary: h)
  case Nil
  then show ?case by simp
next
  case (Cons x calls)
  have "r < length (exec x h)" using Cons.prems exec_length [of h x] by simp
  from Cons.IH [OF this] show ?case using Cons.prems by (simp add: exec_maxSize)
qed


text \<open>
  Claim C10. After any sequence of \<^verbatim>\<open>Write\<close>, \<^verbatim>\<open>WriteMulti\<close>, \<^verbatim>\<open>Snapshot\<close>,
  \<^verbatim>\<open>ClearSnapshot\<close>, \<^verbatim>\<open>Size\<close>, \<^verbatim>\<open>Keys\<close>, \<^verbatim>\<open>Values\<close> and \<^verbatim>\<open>MaxSize\<close> calls,
  on the cache made by \<open>NewCache m\<close> or on any snapshot taken meanwhile, \<^verbatim>\<open>MaxSize()\<close>
  of that cache is still \<open>m\<close>.
\<close>

theorem MaxSize_constant: "MaxSize (run calls [NewCache m] ! 0) = m"
  using run_maxSize [of 0 "[NewCache m]" calls] by (simp add: MaxSize_def NewCache_def)

section \<open>What a write stores\<close>

lemma WriteMulti_size_eq:
  "WriteMulti_size vals t = t + sum_list (map (\<lambda>kv. Values_Size (snd kv)) vals)"
  by (induction vals t rule: WriteMulti_size.induct) (simp_all add: add.assoc)

lemma write_c_ok: "fst (write_c key vs c) \<longleftrightarrow> \<not> (stored key c \<noteq> [] \<and> vs = [])"
proof (cases "map_of (store c) key")
  case None
  then show ?thesis using add_None_iff [of vs newEntry]
    by (cases "add vs newEntry") (auto simp: write_c_def stored_def newEntry_def Let_def)
next
  case (Some e)
  then show ?thesis using add_None_iff [of vs e]
    by (cases "add vs e") (auto simp: write_c_def stored_def Let_def)
qed

lemma map_of_write_c:
  "fst (write_c key vs c) \<Longrightarrow>
     map_of (store (snd (write_c key vs c))) k =
       (if k = key then add vs (case map_of (store c) key of None \<Rightarrow> newEntry | Some e \<Rightarrow> e)
        else map_of (store c) k)"
  by (auto simp: write_c_def Let_def update_conv' split: option.splits)

lemma stored_write_c:
  "fst (write_c key vs c) \<Longrightarrow>
     stored k (snd (write_c key vs c)) = (if k = key then stored key c @ vs else stored k c)"
  by (auto simp: write_c_def stored_def Let_def update_conv' newEntry_def
      dest: add_values split: option.splits)

lemma stored_write_c_other:
  "k \<noteq> key \<Longrightarrow> map_of (store (snd (write_c key vs c))) k = map_of (store c) k"
  by (auto simp: write_c_def Let_def update_conv' split: option.splits)

lemma WriteMulti_loop_other:
  "key \<notin> set (map fst vals) \<Longrightarrow>
     map_of (store (snd (WriteMulti_loop vals c))) key = map_of (store c) key"
proof (induction vals arbitrary: c)
  case Nil
  then show ?case by simp
next
  case (Cons kv rest)
  obtain k v where kv: "kv = (k, v)" by (cases kv)
  obtain ok c1 where w: "write_c k v c = (ok, c1)" by (cases "write_c k v c")
  have "k \<noteq> key" using Cons.prems kv by auto
  then have c1: "map_of (store c1) key = map_of (store c) key"
    using stored_write_c_other [of key k v c] w by simp
  have "key \<notin> set (map fst rest)" using Cons.prems by simp
  from Cons.IH [OF this, of c1] show ?case using w kv c1 by (cases ok) simp_all
qed


lemma cache_with_b_eq:
  "cache_with_b =
     \<lparr>store = [(''b'', \<lparr>values_e = [sample 1 0], needSort = False, size_e = 20\<rparr>)],
        size_c = 20, maxSize = 100, flushingCaches = [], flushingCachesSize = 0\<rparr>"
  by (simp add: cache_with_b_def Write_def write_c_def add_def newEntry_def NewCache_def
      Values_Size_def sample_def Let_def)

section \<open>Admission at the capacity\<close>




section \<open>WriteMulti: all keys or none\<close>

lemma stored_size_c_update: "stored k (c\<lparr>size_c := n\<rparr>) = stored k c"
  by (simp add: stored_def)

lemma WriteMulti_loop_applies:
  assumes "distinct (map fst vals)"
    and "\<forall>kv \<in> set vals. snd kv = [] \<longrightarrow> stored (fst kv) c = []"
  shows "fst (WriteMulti_loop vals c) \<and>
         (\<forall>kv \<in> set vals. stored (fst kv) (snd (WriteMulti_loop vals c)) = stored (fst kv) c @ snd kv)"
  using assms
proof (induction vals arbitrary: c)
  case Nil
  then show ?case by simp
next
  case (Cons kv rest)
  obtain k v where kv: "kv = (k, v)" by (cases kv)
  obtain ok c1 where w: "write_c k v c = (ok, c1)" by (cases "write_c k v c")
  have "\<not> (stored k c \<noteq> [] \<and> v = [])" using Cons.prems(2) kv by auto
  then have ok: "ok" using write_c_ok [of k v c] w by simp
  have st: "stored k' c1 = (if k' = k then stored k c @ v else stored k' c)" for k'
    using stored_write_c [of k v c k'] w ok by simp
  have notin: "k \<notin> set (map fst rest)" and dist: "distinct (map fst rest)"
    using Cons.prems(1) kv by simp_all
  have other: "stored (fst kv') c1 = stored (fst kv') c" if "kv' \<in> set rest" for kv'
    using that notin st [of "fst kv'"] by auto
  have pre: "\<forall>kv' \<in> set rest. snd kv' = [] \<longrightarrow> stored (fst kv') c1 = []"
    using Cons.prems(2) other by simp
  note IH = Cons.IH [OF dist pre]
  have loop: "WriteMulti_loop (kv # rest) c = WriteMulti_loop rest c1"
    using w ok kv by simp
  have head: "stored k (snd (WriteMulti_loop rest c1)) = stored k c @ v"
  proof -
    have "map_of (store (snd (WriteMulti_loop rest c1))) k = map_of (store c1) k"
      using notin by (rule WriteMulti_loop_other)
    then have "stored k (snd (WriteMulti_loop rest c1)) = stored k c1"
      by (simp add: stored_def)
    then show ?thesis using st [of k] by simp
  qed
  have tail: "stored (fst kv') (snd (WriteMulti_loop rest c1)) = stored (fst kv') c @ snd kv'"
    if "kv' \<in> set rest" for kv'
    using IH that other [OF that] by simp
  have "\<forall>kv' \<in> set (kv # rest).
      stored (fst kv') (snd (WriteMulti_loop rest c1)) = stored (fst kv') c @ snd kv'"
    using head tail kv by simp
  then show ?case unfolding loop using IH by blast
qed

text \<open>
  Claim C6, as amended. The batch is a Go map, so its keys are distinct. If no key whose
  entry already holds samples is given an empty sample sequence (the batch on which
  \<^verbatim>\<open>add\<close> would panic), then \<^verbatim>\<open>WriteMulti\<close> has exactly two outcomes. Either the
  capacity check fails: it returns \<open>ErrCacheMemoryExceeded\<close> and the cache is unchanged
  in every field. Or the check passes: it returns the new size and no error, every key
  of the batch has its samples appended, every other key keeps its entry, the full
  increment is committed to the live size and the other counters are unchanged.
\<close>

theorem WriteMulti_all_or_nothing:
  assumes "distinct (map fst vals)"
    and "\<forall>kv \<in> set vals. snd kv = [] \<longrightarrow> stored (fst kv) c = []"
  shows
    "(maxSize c < size_c c + WriteMulti_size vals 0 + flushingCachesSize c
        \<and> WriteMulti vals c =
            (Return (size_c c + WriteMulti_size vals 0, Some ErrCacheMemoryExceeded), c))
     \<or> (\<not> maxSize c < size_c c + WriteMulti_size vals 0 + flushingCachesSize c
        \<and> fst (WriteMulti vals c) = Return (size_c c + WriteMulti_size vals 0, None)
        \<and> (\<forall>kv \<in> set vals.
              stored (fst kv) (snd (WriteMulti vals c)) = stored (fst kv) c @ snd kv)
        \<and> (\<forall>k. k \<notin> set (map fst vals) \<longrightarrow>
              map_of (store (snd (WriteMulti vals c))) k = map_of (store c) k)
        \<and> size_c (snd (WriteMulti vals c)) = size_c c + WriteMulti_size vals 0
        \<and> maxSize (snd (WriteMulti vals c)) = maxSize c
        \<and> flushingCaches (snd (WriteMulti vals c)) = flushingCaches c
        \<and> flushingCachesSize (snd (WriteMulti vals c)) = flushingCachesSize c)"
proof (cases "maxSize c < size_c c + WriteMulti_size vals 0 + flushingCachesSize c")
  case True
  then show ?thesis by (simp add: WriteMulti_def Let_def)
next
  case False
  note L = WriteMulti_loop_applies [OF assms]
  have W: "WriteMulti vals c =
       (Return (size_c c + WriteMulti_size vals 0, None),
        (snd (WriteMulti_loop vals c))\<lparr>size_c := size_c c + WriteMulti_size vals 0\<rparr>)"
    using WriteMulti_cases [of vals c] False L by auto
  have a: "\<forall>kv \<in> set vals.
      stored (fst kv) (snd (WriteMulti vals c)) = stored (fst kv) c @ snd kv"
    using L by (simp add: W stored_size_c_update)
  have b: "\<forall>k. k \<notin> set (map fst vals) \<longrightarrow>
      map_of (store (snd (WriteMulti vals c))) k = map_of (store c) k"
    using WriteMulti_loop_other [of _ vals c] by (simp add: W)
  have c: "size_c (snd (WriteMulti vals c)) = size_c c + WriteMulti_size vals 0"
    "maxSize (snd (WriteMulti vals c)) = maxSize c"
    "flushingCaches (snd (WriteMulti vals c)) = flushingCaches c"
    "flushingCachesSize (snd (WriteMulti vals c)) = flushingCachesSize c"
    by (simp_all add: W WriteMulti_loop_frame)
  show ?thesis using False W a b c by simp
qed

theorem WriteMulti_all_or_nothing_witness:
  "distinct (map fst [(''a'', [sample 2 0]), (''b'', [sample 3 0]), (''z'', [])])
   \<and> [sample 2 0] \<noteq> [] \<and> [sample 3 0] \<noteq> [] \<and> stored ''z'' cache_with_b = []
   \<and> fst (WriteMulti [(''a'', [sample 2 0]), (''b'', [sample 3 0]), (''z'', [])] cache_with_b)
        = Return (60, None)
   \<and> stored ''a''
        (snd (WriteMulti [(''a'', [sample 2 0]), (''b'', [sample 3 0]), (''z'', [])] cache_with_b))
        = [sample 2 0]
   \<and> stored ''b''
        (snd (WriteMulti [(''a'', [sample 2 0]), (''b'', [sample 3 0]), (''z'', [])] cache_with_b))
        = [sample 1 0, sample 3 0]
   \<and> stored ''z''
        (snd (WriteMulti [(''a'', [sample 2 0]), (''b'', [sample 3 0]), (''z'', [])] cache_with_b))
        = []
   \<and> size_c
        (snd (WriteMulti [(''a'', [sample 2 0]), (''b'', [sample 3 0]), (''z'', [])] cache_with_b))
        = 60"
proof -
  let ?vals = "[(''a'', [sample 2 0]), (''b'', [sample 3 0]), (''z'', [])]"
  have c: "size_c cache_with_b = 20" "maxSize cache_with_b = 100"
    "flushingCachesSize cache_with_b = 0" "stored ''a'' cache_with_b = []"
    "stored ''b'' cache_with_b = [sample 1 0]" "stored ''z'' cache_with_b = []"
    by (simp_all add: cache_with_b_eq stored_def)
  have h1: "distinct (map fst ?vals)" by simp
  have h2: "\<forall>kv \<in> set ?vals. snd kv = [] \<longrightarrow> stored (fst kv) cache_with_b = []"
    by (simp add: c)
  show ?thesis
    using h1 h2 WriteMulti_all_or_nothing [OF h1 h2] by (simp add: c Values_Size_def sample_def)
qed

text \<open>
  Claim C6 as stated fails: on a batch whose key \<open>b\<close> has an empty sequence while \<open>b\<close>
  already holds a sample, the call passes the capacity check, appends the samples of
  \<open>a\<close>, panics at \<open>b\<close> and never reaches \<open>c\<close>; the live size is not updated.
\<close>

theorem WriteMulti_partial_counterexample:
  "fst (WriteMulti batch_with_empty cache_with_b) = Panic
   \<and> stored ''a'' cache_with_b = []
   \<and> stored ''a'' (snd (WriteMulti batch_with_empty cache_with_b)) = [sample 2 0]
   \<and> stored ''c'' (snd (WriteMulti batch_with_empty cache_with_b)) = []
   \<and> size_c (snd (WriteMulti batch_with_empty cache_with_b)) = size_c cache_with_b
   \<and> snd (WriteMulti batch_with_empty cache_with_b) \<noteq> cache_with_b"
  by (simp add: cache_with_b_eq batch_with_empty_def WriteMulti_def write_c_def add_def
      newEntry_def Values_Size_def sample_def stored_def MinInt64_def Let_def)

section \<open>Snapshots\<close>

lemma heap_one_snapshot_eq:
  "heap_one_snapshot =
     [\<lparr>store = [], size_c = 0, maxSize = 100, flushingCaches = [1], flushingCachesSize = 60\<rparr>,
      \<lparr>store = [(''cpu'', \<lparr>values_e = [sample 1 0, sample 2 0, sample 3 0], needSort = False,
                           size_e = 60\<rparr>)],
         size_c = 60, maxSize = 100, flushingCaches = [], flushingCachesSize = 0\<rparr>]"
  by (simp add: heap_one_snapshot_def run_def Write_def write_c_def add_def newEntry_def
      NewCache_def Values_Size_def sample_def Snapshot_def MinInt64_def Let_def)

text \<open>
  What \<^verbatim>\<open>Snapshot\<close> does to the counters of the cache at a valid address. The new
  cache, at a fresh address, takes the store, the keys and the live counter of the
  original, and its \<^verbatim>\<open>Size()\<close> is that counter. The original is left with an empty
  store, no keys and a live counter of zero; its \<^verbatim>\<open>Size()\<close> is unchanged, so it is
  the old live counter when the snapshot counter was zero.
\<close>

lemma Snapshot_counters:
  "c < length h \<Longrightarrow>
     fst (Snapshot c h) = length h
     \<and> store (snd (Snapshot c h) ! fst (Snapshot c h)) = store (h ! c)
     \<and> Keys (snd (Snapshot c h) ! fst (Snapshot c h)) = Keys (h ! c)
     \<and> size_c (snd (Snapshot c h) ! fst (Snapshot c h)) = size_c (h ! c)
     \<and> Size (snd (Snapshot c h) ! fst (Snapshot c h)) = size_c (h ! c)
     \<and> size_c (snd (Snapshot c h) ! c) = 0
     \<and> store (snd (Snapshot c h) ! c) = []
     \<and> Keys (snd (Snapshot c h) ! c) = []
     \<and> Size (snd (Snapshot c h) ! c) = Size (h ! c)
     \<and> Size (snd (Snapshot c h) ! c) = size_c (h ! c) + flushingCachesSize (h ! c)
     \<and> (flushingCachesSize (h ! c) = 0 \<longrightarrow> Size (snd (Snapshot c h) ! c) = size_c (h ! c))"
  by (simp add: Snapshot_def Let_def Keys_def Size_def NewCache_def nth_append)

text \<open>
  What \<^verbatim>\<open>ClearSnapshot\<close> does in general: a snapshot that is not in the list changes
  nothing, so neither does a second release; a snapshot in the list is removed and its
  size is subtracted from the live size \<open>size_c\<close>, with the snapshot size
  \<open>flushingCachesSize\<close> left as it was.
\<close>

lemma ClearSnapshot_unknown:
  "s \<notin> set (flushingCaches (h ! c)) \<Longrightarrow> ClearSnapshot c s h = h"
proof -
  assume "s \<notin> set (flushingCaches (h ! c))"
  then have "filter (\<lambda>r. r \<noteq> s) (flushingCaches (h ! c)) = flushingCaches (h ! c)"
    by (auto simp: filter_id_conv)
  then show ?thesis
    using \<open>s \<notin> set (flushingCaches (h ! c))\<close> by (simp add: ClearSnapshot_eq Let_def)
qed

lemma ClearSnapshot_known:
  assumes "c < length h" and "s \<in> set (flushingCaches (h ! c))" and "s \<noteq> c"
  shows "ClearSnapshot c s h =
     h[c := (h ! c)\<lparr>flushingCaches := filter (\<lambda>r. r \<noteq> s) (flushingCaches (h ! c)),
                     size_c := size_c (h ! c) - size_c (h ! s)\<rparr>]"
  using assms by (simp add: ClearSnapshot_eq Let_def)

lemma ClearSnapshot_twice:
  assumes "c < length h" and "s \<noteq> c"
  shows "ClearSnapshot c s (ClearSnapshot c s h) = ClearSnapshot c s h"
proof (cases "s \<in> set (flushingCaches (h ! c))")
  case True
  have "s \<notin> set (flushingCaches (ClearSnapshot c s h ! c))"
    using assms True by (simp add: ClearSnapshot_known)
  then show ?thesis by (rule ClearSnapshot_unknown)
next
  case False
  then show ?thesis by (simp add: ClearSnapshot_unknown)
qed

text \<open>
  Claim C1 fails on the code at its first half. After a write of 60 bytes and a
  snapshot, the first \<^verbatim>\<open>ClearSnapshot\<close> of that snapshot removes it from the list but
  leaves \<open>flushingCachesSize\<close> at 60 and subtracts the 60 from the live size instead,
  which wraps around from 0 to \<open>2^64 - 60\<close>.
\<close>

theorem ClearSnapshot_subtracts_from_live_size:
  "flushingCaches (heap_one_snapshot ! 0) = [1]
   \<and> size_c (heap_one_snapshot ! 1) = 60
   \<and> size_c (heap_one_snapshot ! 0) = 0
   \<and> flushingCachesSize (heap_one_snapshot ! 0) = 60
   \<and> flushingCaches (ClearSnapshot 0 1 heap_one_snapshot ! 0) = []
   \<and> flushingCachesSize (ClearSnapshot 0 1 heap_one_snapshot ! 0) = 60
   \<and> size_c (ClearSnapshot 0 1 heap_one_snapshot ! 0) = 18446744073709551556"
  by (simp add: heap_one_snapshot_eq ClearSnapshot_def)

lemma heap_released_then_write_eq:
  "heap_released_then_write =
     [\<lparr>store = [(''mem'', \<lparr>values_e = [sample 4 0], needSort = False, size_e = 20\<rparr>)],
         size_c = 18446744073709551576, maxSize = 100, flushingCaches = [],
         flushingCachesSize = 60\<rparr>,
      \<lparr>store = [(''cpu'', \<lparr>values_e = [sample 1 0, sample 2 0, sample 3 0], needSort = False,
                           size_e = 60\<rparr>)],
         size_c = 60, maxSize = 100, flushingCaches = [], flushingCachesSize = 0\<rparr>]"
  by (simp add: heap_released_then_write_def heap_one_snapshot_eq run_def ClearSnapshot_def
      Write_def write_c_def add_def newEntry_def Values_Size_def sample_def Let_def)

text \<open>
  Claim C5 fails on the code once a snapshot has been released. After a write of 60
  bytes, a snapshot, its release and a write of 20 bytes, the cache has no snapshot
  outstanding, holds the key \<open>mem\<close> with 20 bytes of samples, and its \<^verbatim>\<open>Size()\<close> is
  20. \<^verbatim>\<open>Snapshot\<close> then returns a new cache with the key \<open>mem\<close> whose \<^verbatim>\<open>Size()\<close>
  is \<open>2^64 - 40\<close>, not 20: it copies the live counter that the release had wrapped
  around. The original is left with live size zero, no keys and \<^verbatim>\<open>Size()\<close> 20.
\<close>

theorem Snapshot_after_release_wrong_size:
  "flushingCaches (heap_released_then_write ! 0) = []
   \<and> Keys (heap_released_then_write ! 0) = [''mem'']
   \<and> liveBytes (heap_released_then_write ! 0) = 20
   \<and> Size (heap_released_then_write ! 0) = 20
   \<and> fst (Snapshot 0 heap_released_then_write) = 2
   \<and> Keys (snd (Snapshot 0 heap_released_then_write) ! 2) = [''mem'']
   \<and> liveBytes (snd (Snapshot 0 heap_released_then_write) ! 2) = 20
   \<and> Size (snd (Snapshot 0 heap_released_then_write) ! 2) = 18446744073709551576
   \<and> size_c (snd (Snapshot 0 heap_released_then_write) ! 0) = 0
   \<and> Keys (snd (Snapshot 0 heap_released_then_write) ! 0) = []
   \<and> Size (snd (Snapshot 0 heap_released_then_write) ! 0) = 20"
  by (simp add: heap_released_then_write_eq Snapshot_def Size_def Keys_def liveBytes_def
      Values_Size_def sample_def NewCache_def Let_def)

section \<open>Order of the samples of an entry\<close>

text \<open>
  When \<^verbatim>\<open>add\<close> sets the flag: it was set, or the first new timestamp is not above
  the first stored one, or the batch has not exactly one sample and one of its timestamps
  is \<^verbatim>\<open>math.MinInt64\<close>. Disorder inside the batch plays no part.
\<close>

lemma add_scan_iff: "add_scan m vs ns \<longleftrightarrow> ns \<or> (\<exists>v \<in> set vs. UnixNano v \<le> m)"
  by (induction vs) auto

lemma add_needSort_iff:
  assumes "add vs e = Some e'"
  shows "needSort e' \<longleftrightarrow>
           needSort e
           \<or> (values_e e \<noteq> [] \<and> UnixNano (hd vs) \<le> UnixNano (hd (values_e e)))
           \<or> (length vs \<noteq> 1 \<and> (\<exists>v \<in> set vs. UnixNano v \<le> MinInt64))"
  using assms by (auto simp: add_def Let_def add_scan_iff split: if_splits)

text \<open>
  Claim C4 fails on the code at its second half. \<^verbatim>\<open>add\<close> of the batch with
  timestamps 5, 3, 8, which is not increasing, to a new entry leaves \<open>needSort\<close> false.
\<close>

theorem add_misses_internal_disorder:
  "add [sample 5 0, sample 3 1, sample 8 2] newEntry =
     Some \<lparr>values_e = [sample 5 0, sample 3 1, sample 8 2], needSort = False, size_e = 60\<rparr>
   \<and> map UnixNano [sample 5 0, sample 3 1, sample 8 2] = [5, 3, 8]"
  by (simp add: add_def newEntry_def sample_def Let_def MinInt64_def Values_Size_def)

text \<open>
  Claim C3 fails on the code. After one write with timestamps 5, 3, 8 the flag is not
  set, and \<^verbatim>\<open>Values\<close> returns the samples as stored, in the order 5, 3, 8.
\<close>

theorem Values_returns_unsorted:
  "fst (Values ''k'' (snd (Write ''k'' [sample 5 0, sample 3 1, sample 8 2] (NewCache 100))))
     = [sample 5 0, sample 3 1, sample 8 2]
   \<and> map UnixNano
        (fst (Values ''k'' (snd (Write ''k'' [sample 5 0, sample 3 1, sample 8 2] (NewCache 100)))))
     = [5, 3, 8]"
  by (simp add: Values_def Write_def write_c_def add_def newEntry_def sample_def Let_def
      MinInt64_def Values_Size_def NewCache_def)

text \<open>
  Claim C7. On a new entry, \<^verbatim>\<open>add\<close> of the batch with timestamps 5, 3, 8 and then
  of the batch with timestamp 1 sets the flag (1 is not above 5), and \<^verbatim>\<open>Values\<close>
  returns the four samples in the order 1, 3, 5, 8, whatever their payloads and sizes.
\<close>

theorem out_of_order_append:
  "fst (Values ''k''
     (snd (write_c ''k'' [\<lparr>UnixNano = 1, payload = p4, Size_v = s4\<rparr>]
       (snd (write_c ''k''
          [\<lparr>UnixNano = 5, payload = p1, Size_v = s1\<rparr>,
           \<lparr>UnixNano = 3, payload = p2, Size_v = s2\<rparr>,
           \<lparr>UnixNano = 8, payload = p3, Size_v = s3\<rparr>] (NewCache m))))))
   = [\<lparr>UnixNano = 1, payload = p4, Size_v = s4\<rparr>,
      \<lparr>UnixNano = 3, payload = p2, Size_v = s2\<rparr>,
      \<lparr>UnixNano = 5, payload = p1, Size_v = s1\<rparr>,
      \<lparr>UnixNano = 8, payload = p3, Size_v = s3\<rparr>]"
  by (simp add: Values_def write_c_def add_def newEntry_def Let_def MinInt64_def
      Values_Size_def NewCache_def Deduplicate_def)

subsection \<open>After a resort\<close>

lemma dedup_last_timestamps: "set (map UnixNano (dedup_last vs)) = set (map UnixNano vs)"
  by (induction vs) auto

lemma dedup_last_distinct: "distinct (map UnixNano (dedup_last vs))"
proof (induction vs)
  case Nil
  then show ?case by simp
next
  case (Cons v vs)
  have "UnixNano v \<notin> set (map UnixNano (dedup_last vs))" if "UnixNano v \<notin> set (map UnixNano vs)"
    using that dedup_last_timestamps [of vs] by simp
  then show ?case using Cons.IH by auto
qed

lemma dedup_last_subset: "set (dedup_last vs) \<subseteq> set vs"
  by (induction vs) auto

lemma Deduplicate_strictly_sorted: "sorted_wrt (<) (map UnixNano (Deduplicate vs))"
proof -
  have "distinct (map UnixNano (Deduplicate vs)) = distinct (map UnixNano (dedup_last vs))"
    by (simp add: Deduplicate_def distinct_map)
  then have "distinct (map UnixNano (Deduplicate vs))"
    by (simp add: dedup_last_distinct)
  moreover have "sorted (map UnixNano (Deduplicate vs))"
    by (simp add: Deduplicate_def)
  ultimately show ?thesis by (simp add: strict_sorted_iff)
qed

lemma Deduplicate_timestamps: "set (map UnixNano (Deduplicate vs)) = set (map UnixNano vs)"
  using dedup_last_timestamps [of vs] by (simp add: Deduplicate_def)

text \<open>
  The last write wins: a sample appended last survives deduplication and displaces the
  samples of the same timestamp.
\<close>

lemma dedup_last_snoc:
  "dedup_last (vs @ [v]) = filter (\<lambda>u. UnixNano u \<noteq> UnixNano v) (dedup_last vs) @ [v]"
  by (induction vs) auto

lemma Deduplicate_last_write_wins:
  "set (Deduplicate (vs @ [v])) =
     insert v {u \<in> set (Deduplicate vs). UnixNano u \<noteq> UnixNano v}"
  by (auto simp: Deduplicate_def dedup_last_snoc)

lemma ccall_exec_keeps_sorted_entry:
  assumes e: "map_of (store c) key = Some e" and ns: "\<not> needSort e"
    and x: "\<not> adds_to key x"
  shows "map_of (store (ccall_exec x c)) key = Some e"
proof (cases x)
  case (CallWrite k vs)
  then have "key \<noteq> k" using x by auto
  then have "map_of (store (snd (write_c k vs c))) key = Some e"
    using e by (simp add: stored_write_c_other)
  then show ?thesis using CallWrite Write_cases [of k vs c] e by auto
next
  case (CallWriteMulti vals)
  then have "key \<notin> set (map fst vals)" using x by simp
  then have "map_of (store (snd (WriteMulti_loop vals c))) key = Some e"
    using e by (simp add: WriteMulti_loop_other)
  then show ?thesis using CallWriteMulti WriteMulti_cases [of vals c] e by auto
next
  case (CallValues k)
  show ?thesis
  proof (cases "k = key")
    case True
    then show ?thesis using CallValues e ns by (simp add: Values_def)
  next
    case False
    then show ?thesis using CallValues e
      by (simp add: Values_def Let_def update_conv' split: option.splits)
  qed
qed (use e in simp_all)

lemma ccalls_run_keeps_sorted_entry:
  "map_of (store c) key = Some e \<Longrightarrow> \<not> needSort e \<Longrightarrow> \<forall>x \<in> set calls. \<not> adds_to key x \<Longrightarrow>
     map_of (store (ccalls_run calls c)) key = Some e"
  unfolding ccalls_run_def
proof (induction calls arbitrary: c)
  case Nil
  then show ?case by simp
next
  case (Cons x calls)
  have "map_of (store (ccall_exec x c)) key = Some e"
    using Cons.prems by (simp add: ccall_exec_keeps_sorted_entry)
  from Cons.IH [OF this] Cons.prems show ?case by simp
qed

text \<open>
  Claim C8. If the entry of a key has \<open>needSort\<close> set, \<^verbatim>\<open>Values\<close> of that key
  stores an entry whose flag is cleared and whose samples, the ones it returns, are
  strictly increasing by timestamp, so without duplicate timestamps. The entry stays
  exactly that through every later sequence of calls on the cache that does not append
  to the key: reads of any key, and writes to other keys.
\<close>

theorem Values_resort:
  assumes "map_of (store c) key = Some e" and "needSort e"
    and "\<forall>x \<in> set calls. \<not> adds_to key x"
  shows "\<exists>e'. map_of (store (snd (Values key c))) key = Some e'
           \<and> fst (Values key c) = values_e e'
           \<and> \<not> needSort e'
           \<and> sorted_wrt (<) (map UnixNano (values_e e'))
           \<and> distinct (map UnixNano (values_e e'))
           \<and> map_of (store (ccalls_run calls (snd (Values key c)))) key = Some e'"
proof -
  let ?e = "e\<lparr>values_e := Deduplicate (values_e e), needSort := False\<rparr>"
  have V: "Values key c = (values_e ?e, c\<lparr>store := AList.update key ?e (store c)\<rparr>)"
    using assms(1,2) by (simp add: Values_def Let_def)
  have m: "map_of (store (snd (Values key c))) key = Some ?e"
    by (simp add: V update_conv')
  have s: "sorted_wrt (<) (map UnixNano (values_e ?e))"
    by (simp add: Deduplicate_strictly_sorted)
  then have d: "distinct (map UnixNano (values_e ?e))"
    by (simp add: strict_sorted_iff)
  have k: "map_of (store (ccalls_run calls (snd (Values key c)))) key = Some ?e"
    using m assms(3) by (simp add: ccalls_run_keeps_sorted_entry)
  show ?thesis
    using V m s d k by (intro exI [of _ ?e]) simp
qed


lemma cache_unsorted_eq:
  "cache_unsorted =
     \<lparr>store = [(''k'', \<lparr>values_e = [sample 5 0, sample 3 1, sample 8 2, sample 1 3],
                         needSort = True, size_e = 80\<rparr>)],
        size_c = 80, maxSize = 100, flushingCaches = [], flushingCachesSize = 0\<rparr>"
  by (simp add: cache_unsorted_def Write_def write_c_def add_def newEntry_def NewCache_def
      Values_Size_def sample_def MinInt64_def Let_def)

lemma Values_cache_unsorted:
  "Values ''k'' cache_unsorted =
     ([sample 1 3, sample 3 1, sample 5 0, sample 8 2],
      cache_unsorted\<lparr>store :=
        [(''k'', \<lparr>values_e = [sample 1 3, sample 3 1, sample 5 0, sample 8 2],
                   needSort = False, size_e = 80\<rparr>)]\<rparr>)"
  by (simp add: cache_unsorted_eq Values_def Deduplicate_def sample_def Let_def)


theorem Values_resort_witness:
  "map_of (store cache_unsorted) ''k'' =
      Some \<lparr>values_e = [sample 5 0, sample 3 1, sample 8 2, sample 1 3], needSort = True,
             size_e = 80\<rparr>
   \<and> needSort \<lparr>values_e = [sample 5 0, sample 3 1, sample 8 2, sample 1 3], needSort = True,
                 size_e = 80\<rparr>
   \<and> \<not> adds_to ''k'' (CallValues ''k'')
   \<and> \<not> adds_to ''k'' (CallWrite ''other'' [sample 9 0])
   \<and> \<not> adds_to ''k'' CallKeys
   \<and> (\<exists>e'. map_of (store (snd (Values ''k'' cache_unsorted))) ''k'' = Some e'
         \<and> map UnixNano (values_e e') = [1, 3, 5, 8]
         \<and> \<not> needSort e'
         \<and> map_of (store (ccalls_run
               [CallValues ''k'', CallWrite ''other'' [sample 9 0], CallKeys]
               (snd (Values ''k'' cache_unsorted)))) ''k'' = Some e')"
proof -
  let ?e = "\<lparr>values_e = [sample 5 0, sample 3 1, sample 8 2, sample 1 3], needSort = True,
             size_e = 80\<rparr>"
  let ?calls = "[CallValues ''k'', CallWrite ''other'' [sample 9 0], CallKeys]"
  have h1: "map_of (store cache_unsorted) ''k'' = Some ?e"
    by (simp add: cache_unsorted_eq)
  have h2: "needSort ?e" by simp
  have h3: "\<forall>x \<in> set ?calls. \<not> adds_to ''k'' x" by simp
  obtain e' where e': "map_of (store (snd (Values ''k'' cache_unsorted))) ''k'' = Some e'"
      "\<not> needSort e'"
      "map_of (store (ccalls_run ?calls (snd (Values ''k'' cache_unsorted)))) ''k'' = Some e'"
    using Values_resort [OF h1 h2 h3] by blast
  have "values_e e' = [sample 1 3, sample 3 1, sample 5 0, sample 8 2]"
    using e'(1) by (auto simp: Values_cache_unsorted)
  then have "map UnixNano (values_e e') = [1, 3, 5, 8]"
    by (simp add: sample_def)
  then have ex: "\<exists>e'. map_of (store (snd (Values ''k'' cache_unsorted))) ''k'' = Some e'
         \<and> map UnixNano (values_e e') = [1, 3, 5, 8]
         \<and> \<not> needSort e'
         \<and> map_of (store (ccalls_run ?calls (snd (Values ''k'' cache_unsorted)))) ''k'' = Some e'"
    using e' by (intro exI [of _ e'] conjI)
  have n: "\<not> adds_to ''k'' (CallValues ''k'')"
    "\<not> adds_to ''k'' (CallWrite ''other'' [sample 9 0])" "\<not> adds_to ''k'' CallKeys"
    by simp_all
  show ?thesis
    by (intro conjI) (rule h1, rule h2, rule n(1), rule n(2), rule n(3), rule ex)
qed


end
